theory Spec2Isabelle
  imports Main
begin

text \<open>
  The step execution and replay engine of Revive Engine: the class \<open>DurableContext\<close> with
  its step primitive and its parallel helper, and the callbacks the application gives it
  (the upsert into the record store, the log, the interruption signal).

  \<open>step\<close> is an async function. It is modelled by the three parts its two \<open>await\<close>s cut
  it into, each a function on one explicit state; what happens between the parts (timers,
  the work settling, the signal being set) is an event, and an execution is a list of
  calls and events. Line numbers are those of \<open>src/App.tsx\<close>.
\<close>

section \<open>Data model (types.ts)\<close>

datatype StepStatus = PENDING | RUNNING | COMPLETED | FAILED

text \<open>
  \<open>result: any\<close> holds whatever a step's work returned; the running and the failed record
  hold \<open>null\<close>. Values are modelled as JSON-like data.
\<close>

datatype jsval = JNull | JStr string | JNum int | JArr "jsval list" | JObj "(string \<times> jsval) list"

text \<open>
  The interface \<open>StepRecord\<close>. The field \<open>id\<close> (the user-provided name of the step) is called
  \<open>ident\<close> here; \<open>error?: string\<close> is an optional field.
\<close>

record StepRecord =
  workflowId :: string
  stepKey :: string
  ident :: string
  sequence :: nat
  status :: StepStatus
  result :: jsval
  error :: "string option"
  timestamp :: nat

datatype LogType = Info | Success | Error | Warning | System

record LogEntry =
  message :: string
  logType :: LogType
  loggedAt :: nat

section \<open>The durable context and the state it works on (App.tsx, engine/DurableEngine)\<close>

text \<open>
  The work \<open>fn: () => Promise<T>\<close> handed to \<open>step\<close> is modelled by what it eventually does:
  it returns a value or it throws an error, of which the engine only reads \<open>message\<close>
  (an error without a message reads as the empty string).
\<close>

datatype work = Returns jsval | Throws string

text \<open>
  The local variables of a suspended invocation of \<open>step\<close>: \<open>id\<close>, \<open>fn\<close> and
  \<open>runningRecord\<close> (which holds \<open>sequence\<close> and \<open>stepKey\<close>).
\<close>

record frame =
  frameId :: string
  frameFn :: work
  runningRecord :: StepRecord

text \<open>
  The promise returned by one call of \<open>step\<close>. An async function runs synchronously up to
  its first \<open>await\<close>; \<open>step\<close> has two: the 1500 ms delay (line 424) and \<open>await fn()\<close>
  (line 431). A promise is therefore suspended at one of the two, or settled.
\<close>

datatype promise =
  AwaitingDelay frame
| AwaitingWork frame
| Fulfilled jsval
| Rejected string

text \<open>
  A history of what the engine did, in program order: each call of \<open>step\<close> with the sequence
  number it took, each call of \<open>this.isInterrupted()\<close> with the value read, each call of
  \<open>this.onStepUpdate\<close> with the record passed, and each call of the work \<open>fn()\<close>.
\<close>

datatype effect =
  Called string nat
| Polled nat bool
| Updated StepRecord
| Invoked string nat

text \<open>
  One state for the \<open>DurableContext\<close> instance (\<open>workflowId\<close>, \<open>sequenceCounter\<close>, and
  \<open>this.db\<close>, the array handed to the constructor, which the class never writes), the
  component state behind its callbacks (\<open>db\<close> behind \<open>onStepUpdate\<close>, \<open>logs\<close> behind
  \<open>onLog\<close>, \<open>isCrashedRef.current\<close> behind \<open>isInterrupted\<close>), the clock read by
  \<open>Date.now()\<close>, the promises of the step calls made so far, indexed by sequence number,
  the order in which they settled, and the history.
  JavaScript numbers are doubles; the counter is modelled as a natural number, which agrees
  with the code below \<open>2^53\<close> calls.
\<close>

record engine =
  ctxWorkflowId :: string
  sequenceCounter :: nat
  ctxDb :: "StepRecord list"
  db :: "StepRecord list"
  logs :: "LogEntry list"
  isCrashedRef :: bool
  now :: nat
  promises :: "nat \<Rightarrow> promise option"
  settledOrder :: "nat list"
  trace :: "effect list"

definition WORKFLOW_INTERRUPTED :: string where
  "WORKFLOW_INTERRUPTED = ''WORKFLOW_INTERRUPTED''"

subsection \<open>Numbers in template strings\<close>

definition digit_char :: "nat \<Rightarrow> char" where
  "digit_char d = ''0123456789'' ! d"

fun string_of_nat :: "nat \<Rightarrow> string" where
  "string_of_nat n =
     (if n < 10 then [digit_char n]
      else string_of_nat (n div 10) @ [digit_char (n mod 10)])"

declare string_of_nat.simps [simp del]

text \<open>Line 394: \<open>const stepKey = `${id}_seq_${sequence}`\<close>.\<close>

definition step_key :: "string \<Rightarrow> nat \<Rightarrow> string" where
  "step_key i n = i @ ''_seq_'' @ string_of_nat n"

subsection \<open>The callbacks: persistent storage simulation and log\<close>

text \<open>\<open>Array.prototype.findIndex\<close>; \<open>None\<close> stands for \<open>-1\<close>.\<close>

fun findIndex :: "('a \<Rightarrow> bool) \<Rightarrow> 'a list \<Rightarrow> nat option" where
  "findIndex P [] = None"
| "findIndex P (x # xs) = (if P x then Some 0 else map_option Suc (findIndex P xs))"

text \<open>Lines 40-50: \<open>handleStepUpdate\<close>, an upsert keyed by \<open>stepKey\<close> alone.\<close>

definition handleStepUpdate :: "StepRecord \<Rightarrow> StepRecord list \<Rightarrow> StepRecord list" where
  "handleStepUpdate record prev =
     (case findIndex (\<lambda>r. stepKey r = stepKey record) prev of
        Some idx \<Rightarrow> prev[idx := record]
      | None \<Rightarrow> prev @ [record])"

definition onStepUpdate :: "StepRecord \<Rightarrow> engine \<Rightarrow> engine" where
  "onStepUpdate record w =
     w\<lparr>db := handleStepUpdate record (db w), trace := trace w @ [Updated record]\<rparr>"

text \<open>Lines 30-32: \<open>addLog\<close> puts the entry in front and keeps the first fifty.\<close>

definition addLog :: "string \<Rightarrow> LogType \<Rightarrow> engine \<Rightarrow> engine" where
  "addLog msg t w =
     w\<lparr>logs := take 50 (\<lparr>message = msg, logType = t, loggedAt = now w\<rparr> # logs w)\<rparr>"

text \<open>Line 78: \<open>() => isCrashedRef.current\<close>; the call is entered in the history.\<close>

definition isInterrupted :: "nat \<Rightarrow> engine \<Rightarrow> bool \<times> engine" where
  "isInterrupted n w = (isCrashedRef w, w\<lparr>trace := trace w @ [Polled n (isCrashedRef w)]\<rparr>)"

definition settle :: "nat \<Rightarrow> promise \<Rightarrow> engine \<Rightarrow> engine" where
  "settle n p w = w\<lparr>promises := (promises w)(n \<mapsto> p), settledOrder := settledOrder w @ [n]\<rparr>"

definition suspend :: "nat \<Rightarrow> promise \<Rightarrow> engine \<Rightarrow> engine" where
  "suspend n p w = w\<lparr>promises := (promises w)(n \<mapsto> p)\<rparr>"

subsection \<open>The constructor\<close>

text \<open>
  Lines 73-79 and 374-386: \<open>new DurableContext(WORKFLOW_ID, db, handleStepUpdate, addLog, ...)\<close>
  over a component state: the counter starts at 0 and \<open>this.db\<close> is the store as it is at
  that moment. Invocations of an earlier context that are still suspended are not carried
  over: a replay pass stands for a restart of the process, and one context at a time
  writes to the store.
\<close>

definition DurableContext :: "string \<Rightarrow> engine \<Rightarrow> engine" where
  "DurableContext wid w =
     w\<lparr>ctxWorkflowId := wid, sequenceCounter := 0, ctxDb := db w,
       promises := Map.empty, settledOrder := []\<rparr>"

text \<open>The component state at mount (lines 23-27) with a given store, and a context over it.\<close>

definition initial :: "string \<Rightarrow> StepRecord list \<Rightarrow> engine" where
  "initial wid store =
     \<lparr>ctxWorkflowId = wid, sequenceCounter = 0, ctxDb = store, db = store, logs = [],
      isCrashedRef = False, now = 0, promises = Map.empty, settledOrder = [], trace = []\<rparr>"

subsection \<open>The step primitive (lines 392-461)\<close>

text \<open>Line 399: \<open>existing && existing.status === StepStatus.COMPLETED\<close>.\<close>

definition cached :: "StepRecord option \<Rightarrow> bool" where
  "cached existing = (case existing of Some r \<Rightarrow> status r = COMPLETED | None \<Rightarrow> False)"

definition lookup :: "string \<Rightarrow> engine \<Rightarrow> StepRecord option" where
  "lookup key w = find (\<lambda>r. workflowId r = ctxWorkflowId w \<and> stepKey r = key) (ctxDb w)"

text \<open>Lines 411-419: the record written before the work starts.\<close>

definition running_record :: "engine \<Rightarrow> string \<Rightarrow> nat \<Rightarrow> StepRecord" where
  "running_record w i n =
     \<lparr>workflowId = ctxWorkflowId w, stepKey = step_key i n, ident = i, sequence = n,
      status = RUNNING, result = JNull, error = None, timestamp = now w\<rparr>"

text \<open>Lines 434-439 and 451-456: the records that commit the outcome of the work.\<close>

definition completed_record :: "StepRecord \<Rightarrow> jsval \<Rightarrow> nat \<Rightarrow> StepRecord" where
  "completed_record running v t = running\<lparr>status := COMPLETED, result := v, timestamp := t\<rparr>"

definition failed_record :: "StepRecord \<Rightarrow> string \<Rightarrow> nat \<Rightarrow> StepRecord" where
  "failed_record running m t =
     running\<lparr>status := FAILED, error := Some (if m = [] then ''Unknown error'' else m),
       timestamp := t\<rparr>"

text \<open>
  Lines 393-424, the part of \<open>step\<close> that runs synchronously inside the call: the sequence
  number, the lookup, the memoized return, the first crash check (its \<open>throw\<close> is outside
  the \<open>try\<close>, so nothing is logged), the running record, and the suspension at the delay.
\<close>

definition step_call :: "string \<Rightarrow> work \<Rightarrow> engine \<Rightarrow> engine" where
  "step_call i fn w0 =
     (let sequence = sequenceCounter w0 + 1;
          w = w0\<lparr>sequenceCounter := sequence, trace := trace w0 @ [Called i sequence]\<rparr>;
          key = step_key i sequence;
          existing = lookup key w
      in if cached existing
         then settle sequence (Fulfilled (result (the existing)))
                (addLog (''Skipping Step ['' @ i @ ''] (Seq: '' @ string_of_nat sequence
                           @ '') - Loaded from cache.'') Success w)
         else
           (let (interrupted, w1) = isInterrupted sequence w
            in if interrupted then settle sequence (Rejected WORKFLOW_INTERRUPTED) w1
               else
                 (let w2 = addLog (''Executing Step ['' @ i @ ''] (Seq: ''
                                     @ string_of_nat sequence @ '')...'') Info w1;
                      running = running_record w2 i sequence;
                      w3 = onStepUpdate running w2
                  in suspend sequence
                       (AwaitingDelay \<lparr>frameId = i, frameFn = fn, runningRecord = running\<rparr>) w3)))"

text \<open>
  Lines 426-431, run when the delay of the invocation with sequence number \<open>n\<close> is over:
  the second crash check, whose \<open>throw\<close> is caught at line 445, logged and thrown again, and
  otherwise the call of the work.
\<close>

definition step_timer :: "nat \<Rightarrow> engine \<Rightarrow> engine" where
  "step_timer n w =
     (case promises w n of
        Some (AwaitingDelay fr) \<Rightarrow>
          (let (interrupted, w1) = isInterrupted n w
           in if interrupted
              then settle n (Rejected WORKFLOW_INTERRUPTED)
                     (addLog (''Step ['' @ frameId fr @ ''] interrupted by system crash.'')
                        Warning w1)
              else suspend n (AwaitingWork fr)
                     (w1\<lparr>trace := trace w1 @ [Invoked (frameId fr) n]\<rparr>))
      | _ \<Rightarrow> w)"

text \<open>
  Lines 431-460, run when the work of the invocation with sequence number \<open>n\<close> settles:
  the commit of the result, or the \<open>catch\<close> block.
\<close>

definition step_settle :: "nat \<Rightarrow> engine \<Rightarrow> engine" where
  "step_settle n w =
     (case promises w n of
        Some (AwaitingWork fr) \<Rightarrow>
          (case frameFn fr of
             Returns v \<Rightarrow>
               (let completedRecord = completed_record (runningRecord fr) v (now w);
                    w1 = onStepUpdate completedRecord w;
                    w2 = addLog (''Step ['' @ frameId fr @ ''] finished successfully.'') Success w1
                in settle n (Fulfilled v) w2)
           | Throws m \<Rightarrow>
               if m = WORKFLOW_INTERRUPTED
               then settle n (Rejected m)
                      (addLog (''Step ['' @ frameId fr @ ''] interrupted by system crash.'')
                         Warning w)
               else
                 (let failedRecord = failed_record (runningRecord fr) m (now w);
                      w1 = onStepUpdate failedRecord w;
                      w2 = addLog (''Step ['' @ frameId fr @ ''] failed: '' @ m) Error w1
                  in settle n (Rejected m) w2))
      | _ \<Rightarrow> w)"

subsection \<open>Executions\<close>

text \<open>
  What can happen to a context: the workflow code calls \<open>step\<close>; the delay of a suspended
  invocation is over; the work of an invocation settles; the interruption source sets or
  clears the signal; time passes; the workflow code calls \<open>addLog\<close>.
\<close>

datatype event =
  Call string work
| Timer nat
| Settle nat
| Signal bool
| Elapse nat
| Log string LogType

fun fire :: "event \<Rightarrow> engine \<Rightarrow> engine" where
  "fire (Call i fn) w = step_call i fn w"
| "fire (Timer n) w = step_timer n w"
| "fire (Settle n) w = step_settle n w"
| "fire (Signal b) w = w\<lparr>isCrashedRef := b\<rparr>"
| "fire (Elapse d) w = w\<lparr>now := now w + d\<rparr>"
| "fire (Log m t) w = addLog m t w"

definition exec :: "event list \<Rightarrow> engine \<Rightarrow> engine" where
  "exec es w = fold fire es w"

subsection \<open>Awaiting promises; the parallel helper (lines 467-469)\<close>

definition rejected :: "promise option \<Rightarrow> bool" where
  "rejected p = (case p of Some (Rejected m) \<Rightarrow> True | _ \<Rightarrow> False)"

definition fulfilled :: "promise option \<Rightarrow> bool" where
  "fulfilled p = (case p of Some (Fulfilled v) \<Rightarrow> True | _ \<Rightarrow> False)"

definition value_of :: "promise option \<Rightarrow> jsval" where
  "value_of p = (case p of Some (Fulfilled v) \<Rightarrow> v | _ \<Rightarrow> JNull)"

text \<open>
  The state of the promise of the step call with sequence number \<open>n\<close>, as an \<open>await\<close> sees
  it: \<open>None\<close> while it is pending.
\<close>

definition settled :: "nat \<Rightarrow> engine \<Rightarrow> promise option" where
  "settled n w =
     (case promises w n of
        Some (Fulfilled v) \<Rightarrow> Some (Fulfilled v)
      | Some (Rejected m) \<Rightarrow> Some (Rejected m)
      | _ \<Rightarrow> None)"

text \<open>
  \<open>Promise.all\<close> over the promises of the step calls \<open>ns\<close>: rejected with the reason of the
  first of them that was rejected, fulfilled with the array of their values, in the order
  of \<open>ns\<close>, once all are fulfilled, and pending otherwise.
\<close>

definition promise_all :: "nat list \<Rightarrow> engine \<Rightarrow> promise option" where
  "promise_all ns w =
     (case find (\<lambda>n. List.member ns n \<and> rejected (promises w n)) (settledOrder w) of
        Some n \<Rightarrow> promises w n
      | None \<Rightarrow>
          if list_all (\<lambda>n. fulfilled (promises w n)) ns
          then Some (Fulfilled (JArr (map (\<lambda>n. value_of (promises w n)) ns)))
          else None)"

definition parallel :: "nat list \<Rightarrow> engine \<Rightarrow> promise option" where
  "parallel steps w = promise_all steps w"

text \<open>
  \<open>await p\<close>: the events of the schedule happen one by one until \<open>p\<close> is settled; the
  caller goes on at once then, with the rest of the schedule still to come.
\<close>

fun await :: "(engine \<Rightarrow> promise option) \<Rightarrow> event list \<Rightarrow> engine
    \<Rightarrow> promise option \<times> event list \<times> engine" where
  "await p [] w = (p w, [], w)"
| "await p (e # es) w =
     (case p w of Some r \<Rightarrow> (Some r, e # es, w) | None \<Rightarrow> await p es (fire e w))"

text \<open>
  The argument of \<open>ctx.parallel([ctx.step(...), ctx.step(...)])\<close> (lines 89-92): the array
  literal is evaluated from left to right, each element a call of \<open>step\<close> that returns
  its promise, named here by the sequence number the call took.
\<close>

fun call_all :: "(string \<times> work) list \<Rightarrow> engine \<Rightarrow> nat list \<times> engine" where
  "call_all [] w = ([], w)"
| "call_all ((i, fn) # bs) w =
     (let w1 = step_call i fn w;
          (ns, w2) = call_all bs w1
      in (sequenceCounter w1 # ns, w2))"

subsection \<open>Workflow code (lines 66-107)\<close>

text \<open>
  Workflow code in the shape of \<open>runWorkflow\<close>: inside one \<open>try\<close>, a sequence of
  \<open>await ctx.step(id, fn)\<close>, \<open>await ctx.parallel([ctx.step(...), ...])\<close> and
  \<open>addLog(...)\<close>; the \<open>catch\<close> tells the interruption from any other error by its message.
\<close>

datatype stmt =
  AwaitStep string work
| AwaitParallel "(string \<times> work) list"
| Note string LogType

datatype outcome =
  PassSucceeded
| PassFailed string
| PassInterrupted
| PassSuspended

definition caught :: "string \<Rightarrow> event list \<Rightarrow> engine \<Rightarrow> outcome \<times> event list \<times> engine" where
  "caught m es w =
     (if m = WORKFLOW_INTERRUPTED then (PassInterrupted, es, w)
      else (PassFailed m, es, addLog (''Workflow failed: '' @ m) Error w))"

fun run_pass :: "stmt list \<Rightarrow> event list \<Rightarrow> engine \<Rightarrow> outcome \<times> event list \<times> engine" where
  "run_pass [] es w = (PassSucceeded, es, addLog ''Workflow completed successfully!'' Success w)"
| "run_pass (Note m t # ss) es w = run_pass ss es (addLog m t w)"
| "run_pass (AwaitStep i fn # ss) es w =
     (let w1 = step_call i fn w
      in case await (settled (sequenceCounter w1)) es w1 of
           (Some (Fulfilled v), es', w') \<Rightarrow> run_pass ss es' w'
         | (Some (Rejected m), es', w') \<Rightarrow> caught m es' w'
         | (_, es', w') \<Rightarrow> (PassSuspended, es', w'))"
| "run_pass (AwaitParallel bs # ss) es w =
     (let (ns, w1) = call_all bs w
      in case await (parallel ns) es w1 of
           (Some (Fulfilled v), es', w') \<Rightarrow> run_pass ss es' w'
         | (Some (Rejected m), es', w') \<Rightarrow> caught m es' w'
         | (_, es', w') \<Rightarrow> (PassSuspended, es', w'))"

text \<open>
  Replay: one pass after the other, each with a new context over the store as the pass
  before left it, and each made of any calls of \<open>step\<close> and any events.
\<close>

fun replay :: "string \<Rightarrow> event list list \<Rightarrow> engine \<Rightarrow> engine" where
  "replay wid [] w = w"
| "replay wid (es # passes) w = replay wid passes (exec es (DurableContext wid w))"

text \<open>The calls of \<open>step\<close> in a history, and how often the work of a step key was called.\<close>

fun calls_of :: "effect list \<Rightarrow> (string \<times> nat) list" where
  "calls_of [] = []"
| "calls_of (Called i n # tr) = (i, n) # calls_of tr"
| "calls_of (e # tr) = calls_of tr"

fun invoked_of :: "effect list \<Rightarrow> (string \<times> nat) list" where
  "invoked_of [] = []"
| "invoked_of (Invoked i n # tr) = (i, n) # invoked_of tr"
| "invoked_of (e # tr) = invoked_of tr"

fun updates_of :: "effect list \<Rightarrow> StepRecord list" where
  "updates_of [] = []"
| "updates_of (Updated r # tr) = r # updates_of tr"
| "updates_of (e # tr) = updates_of tr"

definition invocations :: "string \<Rightarrow> effect list \<Rightarrow> nat" where
  "invocations key tr = length (filter (\<lambda>(i, n). step_key i n = key) (invoked_of tr))"

text \<open>
  What the branch \<open>b\<close> of a parallel call, with sequence number \<open>n\<close>, yields when it is
  fulfilled: the stored result when the step is memoized, and what its work returns
  otherwise.
\<close>

definition branch_result :: "engine \<Rightarrow> string \<times> work \<Rightarrow> nat \<Rightarrow> jsval option" where
  "branch_result w b n =
     (case lookup (step_key (fst b) n) w of
        Some r \<Rightarrow>
          if status r = COMPLETED then Some (result r)
          else (case snd b of Returns v \<Rightarrow> Some v | Throws m \<Rightarrow> None)
      | None \<Rightarrow> (case snd b of Returns v \<Rightarrow> Some v | Throws m \<Rightarrow> None))"

section \<open>Auxiliary notions for the statements and the proofs\<close>

definition digit_val :: "char \<Rightarrow> nat" where
  "digit_val c = of_char c - 48"

definition nat_of_string :: "string \<Rightarrow> nat" where
  "nat_of_string s = foldl (\<lambda>a c. 10 * a + digit_val c) 0 s"

definition frame_of :: "promise option \<Rightarrow> frame option" where
  "frame_of p =
     (case p of Some (AwaitingDelay fr) \<Rightarrow> Some fr | Some (AwaitingWork fr) \<Rightarrow> Some fr | _ \<Rightarrow> None)"

definition frames_ok :: "engine \<Rightarrow> bool" where
  "frames_ok w =
     (\<forall>n fr. frame_of (promises w n) = Some fr \<longrightarrow>
        n \<le> sequenceCounter w \<and>
        workflowId (runningRecord fr) = ctxWorkflowId w \<and>
        stepKey (runningRecord fr) = step_key (frameId fr) n \<and>
        status (runningRecord fr) = RUNNING \<and>
        \<not> cached (lookup (step_key (frameId fr) n) w))"

definition written :: "StepRecord \<Rightarrow> bool" where
  "written r = (status r = RUNNING \<or> status r = COMPLETED \<or> status r = FAILED)"


section \<open>Example states\<close>

text \<open>
  A first pass that runs one step to completion, the record it leaves, and a record left
  by a step that failed.
\<close>

definition first_pass :: engine where
  "first_pass = exec [Call ''A'' (Returns (JStr ''done'')), Timer 1, Settle 1] (initial ''wf-1'' [])"

definition done_A :: StepRecord where
  "done_A = \<lparr>workflowId = ''wf-1'', stepKey = ''A_seq_1'', ident = ''A'', sequence = 1,
             status = COMPLETED, result = JStr ''done'', error = None, timestamp = 0\<rparr>"


text \<open>A record left RUNNING by an interrupted pass, and a pass with a failing branch.\<close>

definition stuck_A :: StepRecord where
  "stuck_A = \<lparr>workflowId = ''wf-1'', stepKey = ''A_seq_1'', ident = ''A'', sequence = 1,
             status = RUNNING, result = JNull, error = None, timestamp = 0\<rparr>"



section \<open>Lemmas\<close>

subsection \<open>Step keys\<close>

text \<open>The step key of a call determines its label and its sequence number: the digits of the number hold no underscore.\<close>

lemma below_ten:
  "(d::nat) < 10 \<Longrightarrow> d = 0 \<or> d = 1 \<or> d = 2 \<or> d = 3 \<or> d = 4 \<or> d = 5 \<or> d = 6 \<or> d = 7 \<or> d = 8 \<or> d = 9"
  by arith

lemma digit_val_digit_char: "d < 10 \<Longrightarrow> digit_val (digit_char d) = d"
  using below_ten [of d] by (auto simp: digit_val_def digit_char_def)

lemma digit_char_not_underscore: "d < 10 \<Longrightarrow> digit_char d \<noteq> CHR ''_''"
  using below_ten [of d] by (auto simp: digit_char_def)

lemma nat_of_string_of_nat: "nat_of_string (string_of_nat n) = n"
proof (induction n rule: string_of_nat.induct)
  case (1 n)
  show ?case
  proof (cases "n < 10")
    case True
    then show ?thesis
      by (simp add: string_of_nat.simps [of n] nat_of_string_def digit_val_digit_char)
  next
    case False
    with 1 have "nat_of_string (string_of_nat (n div 10)) = n div 10" by simp
    with False show ?thesis
      by (simp add: string_of_nat.simps [of n] nat_of_string_def digit_val_digit_char)
  qed
qed

lemma string_of_nat_inject: "string_of_nat m = string_of_nat n \<Longrightarrow> m = n"
  by (metis nat_of_string_of_nat)

lemma string_of_nat_no_underscore: "CHR ''_'' \<notin> set (string_of_nat n)"
proof (induction n rule: string_of_nat.induct)
  case (1 n)
  show ?case
  proof (cases "n < 10")
    case True
    then show ?thesis
      using digit_char_not_underscore [of n] by (simp add: string_of_nat.simps [of n])
  next
    case False
    with 1 have "CHR ''_'' \<notin> set (string_of_nat (n div 10))" by simp
    moreover have "digit_char (n mod 10) \<noteq> CHR ''_''"
      by (rule digit_char_not_underscore) simp
    ultimately show ?thesis
      using False by (simp add: string_of_nat.simps [of n])
  qed
qed

lemma takeWhile_rev_step_key:
  "takeWhile (\<lambda>c. c \<noteq> CHR ''_'') (rev (step_key i n)) = rev (string_of_nat n)"
proof -
  have "rev (step_key i n) = rev (string_of_nat n) @ (CHR ''_'' # rev (i @ ''_seq''))"
    by (simp add: step_key_def)
  moreover have "\<forall>c \<in> set (rev (string_of_nat n)). c \<noteq> CHR ''_''"
    using string_of_nat_no_underscore [of n] by auto
  ultimately show ?thesis
    by (simp add: takeWhile_tail)
qed

lemma step_key_inject: "step_key i m = step_key j n \<Longrightarrow> i = j \<and> m = n"
proof -
  assume eq: "step_key i m = step_key j n"
  then have "rev (string_of_nat m) = rev (string_of_nat n)"
    using takeWhile_rev_step_key [of i m] takeWhile_rev_step_key [of j n] by simp
  then have mn: "m = n"
    using string_of_nat_inject by simp
  with eq have "i = j"
    by (simp add: step_key_def)
  with mn show ?thesis by simp
qed

lemma inj_on_step_key: "inj_on (\<lambda>(i, n). step_key i n) A"
  by (auto simp: inj_on_def dest: step_key_inject)

subsection \<open>The store\<close>

text \<open>The upsert replaces the first record with the key of the new one, or appends; it keeps one record per key and touches no record with another key.\<close>

lemma findIndex_Some: "findIndex P xs = Some k \<Longrightarrow> k < length xs \<and> P (xs ! k)"
proof (induction xs arbitrary: k)
  case Nil
  then show ?case by simp
next
  case (Cons x xs)
  then show ?case by (auto split: if_splits)
qed

lemma findIndex_None: "findIndex P xs = None \<Longrightarrow> \<forall>x \<in> set xs. \<not> P x"
  by (induction xs) (auto split: if_splits)

lemma set_handleStepUpdate: "set (handleStepUpdate r xs) \<subseteq> insert r (set xs)"
  by (auto simp: handleStepUpdate_def split: option.splits dest: set_update_subset_insert [THEN subsetD])

lemma distinct_handleStepUpdate:
  assumes "distinct (map stepKey xs)"
  shows "distinct (map stepKey (handleStepUpdate r xs))"
proof (cases "findIndex (\<lambda>x. stepKey x = stepKey r) xs")
  case None
  then have "\<forall>x \<in> set xs. stepKey x \<noteq> stepKey r"
    by (rule findIndex_None)
  with assms None show ?thesis
    by (auto simp: handleStepUpdate_def)
next
  case (Some k)
  then have k: "k < length xs" "stepKey (xs ! k) = stepKey r"
    using findIndex_Some [of "\<lambda>x. stepKey x = stepKey r" xs k] by auto
  then have "map stepKey (xs[k := r]) = map stepKey xs"
    by (simp add: map_update list_update_same_conv)
  with assms Some show ?thesis
    by (simp add: handleStepUpdate_def)
qed

lemma handleStepUpdate_keeps:
  assumes "x \<in> set xs" and "stepKey x \<noteq> stepKey r"
  shows "x \<in> set (handleStepUpdate r xs)"
proof (cases "findIndex (\<lambda>y. stepKey y = stepKey r) xs")
  case None
  with assms show ?thesis by (simp add: handleStepUpdate_def)
next
  case (Some k)
  then have k: "k < length xs" "stepKey (xs ! k) = stepKey r"
    using findIndex_Some [of "\<lambda>y. stepKey y = stepKey r" xs k] by auto
  from assms(1) obtain j where j: "j < length xs" "xs ! j = x"
    by (auto simp: in_set_conv_nth)
  with k assms(2) have "j \<noteq> k" by auto
  with j have "xs[k := r] ! j = x" by simp
  with j have "x \<in> set (xs[k := r])"
    by (metis length_list_update nth_mem)
  with Some show ?thesis by (simp add: handleStepUpdate_def)
qed

lemma find_unique_key:
  assumes "distinct (map stepKey xs)" and "r \<in> set xs" and "workflowId r = wid"
  shows "find (\<lambda>x. workflowId x = wid \<and> stepKey x = stepKey r) xs = Some r"
  using assms
proof (induction xs)
  case Nil
  then show ?case by simp
next
  case (Cons a xs)
  show ?case
  proof (cases "a = r")
    case True
    with Cons.prems show ?thesis by simp
  next
    case False
    with Cons.prems have "r \<in> set xs" by simp
    with Cons.prems have "stepKey a \<noteq> stepKey r" by force
    with Cons \<open>r \<in> set xs\<close> show ?thesis by simp
  qed
qed

lemma handleStepUpdate_Nil: "handleStepUpdate r [] = [r]"
  by (simp add: handleStepUpdate_def)

lemma handleStepUpdate_Cons:
  "handleStepUpdate r (a # xs) =
     (if stepKey a = stepKey r then r # xs else a # handleStepUpdate r xs)"
  by (simp add: handleStepUpdate_def split: option.splits)

lemma find_handleStepUpdate:
  "find (\<lambda>x. stepKey x = stepKey r) (handleStepUpdate r xs) = Some r"
  by (induction xs) (simp_all add: handleStepUpdate_Nil handleStepUpdate_Cons)

lemma find_key_handleStepUpdate:
  "stepKey r = k \<Longrightarrow> find (\<lambda>x. stepKey x = k) (handleStepUpdate r xs) = Some r"
  using find_handleStepUpdate [of r xs] by simp

subsection \<open>Histories\<close>

lemma calls_of_append: "calls_of (xs @ ys) = calls_of xs @ calls_of ys"
  by (induction xs rule: calls_of.induct) simp_all

lemma invoked_of_append: "invoked_of (xs @ ys) = invoked_of xs @ invoked_of ys"
  by (induction xs rule: invoked_of.induct) simp_all

lemma updates_of_append: "updates_of (xs @ ys) = updates_of xs @ updates_of ys"
  by (induction xs rule: updates_of.induct) simp_all

subsection \<open>Events\<close>

text \<open>What no event changes, and induction over executions and over replay.\<close>

lemmas step_defs = step_call_def step_timer_def step_settle_def isInterrupted_def settle_def
  running_record_def completed_record_def failed_record_def
  suspend_def addLog_def onStepUpdate_def Let_def

lemma exec_induct:
  assumes "P w" and "\<And>e w. P w \<Longrightarrow> P (fire e w)"
  shows "P (exec es w)"
  using assms(1) unfolding exec_def
  by (induction es arbitrary: w) (simp_all add: assms(2))

lemma replay_induct:
  assumes "P w"
    and "\<And>e w. P w \<Longrightarrow> P (fire e w)"
    and "\<And>w. P w \<Longrightarrow> P (DurableContext wid w)"
  shows "P (replay wid passes w)"
  using assms(1)
proof (induction passes arbitrary: w)
  case Nil
  then show ?case by simp
next
  case (Cons es passes)
  from Cons.prems have "P (DurableContext wid w)" by (rule assms(3))
  then have "P (exec es (DurableContext wid w))"
    by (rule exec_induct) (rule assms(2))
  then show ?case
    by (simp add: Cons.IH)
qed

lemma lookup_fire [simp]: "lookup key (fire e w) = lookup key w"
  by (cases e) (auto simp: lookup_def step_defs split: option.splits promise.splits work.splits)

lemma ctxWorkflowId_fire [simp]: "ctxWorkflowId (fire e w) = ctxWorkflowId w"
  by (cases e) (auto simp: step_defs split: option.splits promise.splits work.splits)

lemma ctxDb_fire [simp]: "ctxDb (fire e w) = ctxDb w"
  by (cases e) (auto simp: step_defs split: option.splits promise.splits work.splits)

lemma sequenceCounter_fire: "sequenceCounter (fire e w) = (case e of Call i fn \<Rightarrow> Suc (sequenceCounter w) | _ \<Rightarrow> sequenceCounter w)"
  by (cases e) (auto simp: step_defs split: option.splits promise.splits work.splits)

lemma lookup_exec [simp]: "lookup key (exec es w) = lookup key w"
  by (rule exec_induct [where P = "\<lambda>v. lookup key v = lookup key w"]) simp_all

lemma trace_DurableContext [simp]: "trace (DurableContext wid w) = trace w"
  by (simp add: DurableContext_def)

lemma db_DurableContext [simp]: "db (DurableContext wid w) = db w"
  by (simp add: DurableContext_def)

lemma calls_of_fire:
  "calls_of (trace (fire e w)) =
     calls_of (trace w) @ (case e of Call i fn \<Rightarrow> [(i, Suc (sequenceCounter w))] | _ \<Rightarrow> [])"
  by (cases e)
    (auto simp: step_defs calls_of_append split: option.splits promise.splits work.splits)

lemma numbered_fire:
  assumes "map snd (calls_of (trace w)) = [1..<Suc (sequenceCounter w)]"
  shows "map snd (calls_of (trace (fire e w))) = [1..<Suc (sequenceCounter (fire e w))]"
  using assms by (cases e) (simp_all add: calls_of_fire sequenceCounter_fire del: fire.simps)

lemma written_fire:
  assumes "list_all written (updates_of (trace w))"
  shows "list_all written (updates_of (trace (fire e w)))"
  using assms
  by (cases e)
    (auto simp: step_defs updates_of_append written_def
      split: option.splits promise.splits work.splits)

lemma written_db_fire:
  assumes "list_all written (db w)"
  shows "list_all written (db (fire e w))"
proof -
  have "\<forall>r \<in> set (db (fire e w)). written r"
    using assms
    by (cases e)
      (auto simp: step_defs list_all_iff written_def
        split: option.splits promise.splits work.splits
        dest!: set_handleStepUpdate [THEN subsetD])
  then show ?thesis by (simp add: list_all_iff)
qed

lemma distinct_db_fire:
  assumes "distinct (map stepKey (db w))"
  shows "distinct (map stepKey (db (fire e w)))"
  using assms
  by (cases e)
    (auto simp: step_defs distinct_handleStepUpdate
      split: option.splits promise.splits work.splits)

lemma store_one_record_per_key:
  "distinct (map stepKey (db (replay wid passes (initial wid []))))"
  by (rule replay_induct) (simp_all add: initial_def distinct_db_fire)

subsection \<open>The three parts of a call of step\<close>

text \<open>What the synchronous part, the part after the delay and the part after the work do, case by case.\<close>

lemma step_call_cached:
  assumes "lookup (step_key i (Suc (sequenceCounter w))) w = Some r" and "status r = COMPLETED"
  shows "promises (step_call i fn w) (Suc (sequenceCounter w)) = Some (Fulfilled (result r))"
    and "db (step_call i fn w) = db w"
    and "trace (step_call i fn w) = trace w @ [Called i (Suc (sequenceCounter w))]"
  using assms by (simp_all add: step_defs lookup_def cached_def)



lemma sequenceCounter_step_call [simp]:
  "sequenceCounter (step_call i fn w) = Suc (sequenceCounter w)"
  using sequenceCounter_fire [of "Call i fn" w] by simp




lemma step_settle_ignores_signal:
  "db (step_settle n (fire (Signal b) w)) = db (step_settle n w)"
  "trace (step_settle n (fire (Signal b) w)) = trace (step_settle n w)"
  "promises (step_settle n (fire (Signal b) w)) = promises (step_settle n w)"
  by (simp_all add: step_defs split: option.splits promise.splits work.splits)







subsection \<open>Suspended invocations\<close>

text \<open>Every suspended invocation of a context belongs to a step that was not memoized, and its running record carries the key of the step.\<close>

lemma frame_of_fire:
  assumes "frame_of (promises (fire e w) n) = Some fr"
  shows "frame_of (promises w n) = Some fr \<or>
         (n = Suc (sequenceCounter w) \<and>
          workflowId (runningRecord fr) = ctxWorkflowId w \<and>
          stepKey (runningRecord fr) = step_key (frameId fr) n \<and>
          status (runningRecord fr) = RUNNING \<and>
          \<not> cached (lookup (step_key (frameId fr) n) w) \<and>
          (\<exists>fn. e = Call (frameId fr) fn))"
  using assms
  by (cases e)
    (auto simp: step_defs frame_of_def lookup_def
      split: option.splits promise.splits work.splits if_splits)

lemma frames_ok_fire:
  assumes "frames_ok w"
  shows "frames_ok (fire e w)"
  unfolding frames_ok_def
proof (intro allI impI)
  fix n fr
  assume "frame_of (promises (fire e w) n) = Some fr"
  from frame_of_fire [OF this]
  show "n \<le> sequenceCounter (fire e w) \<and>
        workflowId (runningRecord fr) = ctxWorkflowId (fire e w) \<and>
        stepKey (runningRecord fr) = step_key (frameId fr) n \<and>
        status (runningRecord fr) = RUNNING \<and>
        \<not> cached (lookup (step_key (frameId fr) n) (fire e w))"
  proof
    assume "frame_of (promises w n) = Some fr"
    with assms have "n \<le> sequenceCounter w \<and>
        workflowId (runningRecord fr) = ctxWorkflowId w \<and>
        stepKey (runningRecord fr) = step_key (frameId fr) n \<and>
        status (runningRecord fr) = RUNNING \<and>
        \<not> cached (lookup (step_key (frameId fr) n) w)"
      unfolding frames_ok_def by blast
    moreover have "sequenceCounter w \<le> sequenceCounter (fire e w)"
      by (simp add: sequenceCounter_fire split: event.splits)
    ultimately show ?thesis
      by simp
  next
    assume "n = Suc (sequenceCounter w) \<and>
          workflowId (runningRecord fr) = ctxWorkflowId w \<and>
          stepKey (runningRecord fr) = step_key (frameId fr) n \<and>
          status (runningRecord fr) = RUNNING \<and>
          \<not> cached (lookup (step_key (frameId fr) n) w) \<and>
          (\<exists>fn. e = Call (frameId fr) fn)"
    then show ?thesis
      by (auto simp: sequenceCounter_fire)
  qed
qed



lemma frames_ok_DurableContext: "frames_ok (DurableContext wid w)"
  by (simp add: frames_ok_def frame_of_def DurableContext_def)


lemma frames_ok_uncached:
  assumes "frames_ok w" and "frame_of (promises w n) = Some fr"
  shows "\<not> cached (lookup (stepKey (runningRecord fr)) w)"
  using assms unfolding frames_ok_def by metis

lemma frames_ok_key:
  assumes "frames_ok w" and "frame_of (promises w n) = Some fr"
  shows "stepKey (runningRecord fr) = step_key (frameId fr) n"
  using assms unfolding frames_ok_def by metis

subsection \<open>Memoized records\<close>

text \<open>A record that makes its step memoized stays in the store, no record with its key is written and its work is not called: by no event, in no pass, in no replay.\<close>

lemma lookup_protected:
  assumes "r \<in> set (ctxDb w)" and "distinct (map stepKey (ctxDb w))"
    and "workflowId r = ctxWorkflowId w"
  shows "lookup (stepKey r) w = Some r"
  using assms by (simp add: lookup_def find_unique_key)

lemma lookup_DurableContext:
  assumes "r \<in> set (db w)" and "distinct (map stepKey (db w))" and "workflowId r = wid"
  shows "lookup (stepKey r) (DurableContext wid w) = Some r"
  using assms by (intro lookup_protected) (simp_all add: DurableContext_def)

lemma kept_db_fire:
  assumes "frames_ok w" and "x \<in> set (db w)" and "cached (lookup (stepKey x) w)"
  shows "x \<in> set (db (fire e w))"
proof (cases e)
  case (Call i fn)
  show ?thesis
  proof (cases "cached (lookup (step_key i (Suc (sequenceCounter w))) w)")
    case True
    with Call assms(2) show ?thesis
      by (simp add: step_defs lookup_def)
  next
    case False
    with assms(3) have "stepKey x \<noteq> step_key i (Suc (sequenceCounter w))" by auto
    then have "x \<in> set (handleStepUpdate (running_record w i (Suc (sequenceCounter w))) (db w))"
      using assms(2) by (intro handleStepUpdate_keeps) (simp_all add: running_record_def)
    with Call False assms(2) show ?thesis
      by (simp add: step_defs lookup_def)
  qed
next
  case (Timer n)
  with assms(2) show ?thesis
    by (auto simp: step_defs split: option.splits promise.splits)
next
  case (Settle n)
  show ?thesis
  proof (cases "promises w n")
    case None
    with Settle assms(2) show ?thesis by (simp add: step_defs)
  next
    case (Some p)
    show ?thesis
    proof (cases p)
      case (AwaitingWork fr)
      with Some have "frame_of (promises w n) = Some fr" by (simp add: frame_of_def)
      with assms(1) have "\<not> cached (lookup (stepKey (runningRecord fr)) w)"
        by (rule frames_ok_uncached)
      with assms(3) have ne: "stepKey x \<noteq> stepKey (runningRecord fr)" by auto
      have "x \<in> set (handleStepUpdate (completed_record (runningRecord fr) v t) (db w))" for v t
        using assms(2) ne by (intro handleStepUpdate_keeps) (simp_all add: completed_record_def)
      moreover
      have "x \<in> set (handleStepUpdate (failed_record (runningRecord fr) m t) (db w))" for m t
        using assms(2) ne by (intro handleStepUpdate_keeps) (simp_all add: failed_record_def)
      ultimately show ?thesis
        using Settle Some AwaitingWork assms(2)
        by (simp add: step_settle_def onStepUpdate_def addLog_def settle_def Let_def
            split: work.splits)
    qed (use Settle Some assms(2) in \<open>simp_all add: step_defs\<close>)
  qed
qed (use assms(2) in \<open>simp_all add: addLog_def\<close>)

lemma invocations_fire:
  assumes "frames_ok w" and "cached (lookup key w)"
  shows "invocations key (trace (fire e w)) = invocations key (trace w)"
proof (cases e)
  case (Timer n)
  show ?thesis
  proof (cases "promises w n")
    case None
    with Timer show ?thesis by (simp add: step_defs)
  next
    case (Some p)
    show ?thesis
    proof (cases p)
      case (AwaitingDelay fr)
      with Some have fr: "frame_of (promises w n) = Some fr" by (simp add: frame_of_def)
      with assms(1) have "\<not> cached (lookup (stepKey (runningRecord fr)) w)"
        by (rule frames_ok_uncached)
      with assms(2) frames_ok_key [OF assms(1) fr] have "step_key (frameId fr) n \<noteq> key"
        by auto
      with Timer Some AwaitingDelay show ?thesis
        by (simp add: step_defs invocations_def invoked_of_append)
    qed (use Timer Some in \<open>simp_all add: step_defs\<close>)
  qed
qed (auto simp: step_defs invocations_def invoked_of_append
      split: option.splits promise.splits work.splits)

lemma updates_key_fire:
  assumes "frames_ok w" and "cached (lookup key w)"
  shows "filter (\<lambda>u. stepKey u = key) (updates_of (trace (fire e w))) =
         filter (\<lambda>u. stepKey u = key) (updates_of (trace w))"
proof (cases e)
  case (Call i fn)
  show ?thesis
  proof (cases "cached (lookup (step_key i (Suc (sequenceCounter w))) w)")
    case True
    with Call show ?thesis
      by (simp add: step_defs lookup_def updates_of_append)
  next
    case False
    with assms(2) have "step_key i (Suc (sequenceCounter w)) \<noteq> key" by auto
    with Call False show ?thesis
      by (simp add: step_defs lookup_def updates_of_append)
  qed
next
  case (Settle n)
  show ?thesis
  proof (cases "promises w n")
    case None
    with Settle show ?thesis by (simp add: step_defs)
  next
    case (Some p)
    show ?thesis
    proof (cases p)
      case (AwaitingWork fr)
      with Some have "frame_of (promises w n) = Some fr" by (simp add: frame_of_def)
      with assms(1) have "\<not> cached (lookup (stepKey (runningRecord fr)) w)"
        by (rule frames_ok_uncached)
      with assms(2) have "stepKey (runningRecord fr) \<noteq> key" by auto
      with Settle Some AwaitingWork show ?thesis
        by (simp add: step_defs updates_of_append split: work.splits)
    qed (use Settle Some in \<open>simp_all add: step_defs\<close>)
  qed
qed (auto simp: step_defs updates_of_append split: option.splits promise.splits)

lemma pass_keeps_completed:
  assumes "r \<in> set (db w)" and "distinct (map stepKey (db w))"
    and "workflowId r = wid" and "status r = COMPLETED"
  shows "frames_ok (exec es (DurableContext wid w)) \<and>
         lookup (stepKey r) (exec es (DurableContext wid w)) = Some r \<and>
         r \<in> set (db (exec es (DurableContext wid w))) \<and>
         distinct (map stepKey (db (exec es (DurableContext wid w)))) \<and>
         invocations (stepKey r) (trace (exec es (DurableContext wid w))) =
           invocations (stepKey r) (trace w) \<and>
         filter (\<lambda>u. stepKey u = stepKey r) (updates_of (trace (exec es (DurableContext wid w)))) =
           filter (\<lambda>u. stepKey u = stepKey r) (updates_of (trace w))"
proof (rule exec_induct)
  show "frames_ok (DurableContext wid w) \<and>
         lookup (stepKey r) (DurableContext wid w) = Some r \<and>
         r \<in> set (db (DurableContext wid w)) \<and>
         distinct (map stepKey (db (DurableContext wid w))) \<and>
         invocations (stepKey r) (trace (DurableContext wid w)) =
           invocations (stepKey r) (trace w) \<and>
         filter (\<lambda>u. stepKey u = stepKey r) (updates_of (trace (DurableContext wid w))) =
           filter (\<lambda>u. stepKey u = stepKey r) (updates_of (trace w))"
    using assms by (simp add: frames_ok_DurableContext lookup_DurableContext)
next
  fix e v
  assume inv: "frames_ok v \<and>
         lookup (stepKey r) v = Some r \<and>
         r \<in> set (db v) \<and>
         distinct (map stepKey (db v)) \<and>
         invocations (stepKey r) (trace v) = invocations (stepKey r) (trace w) \<and>
         filter (\<lambda>u. stepKey u = stepKey r) (updates_of (trace v)) =
           filter (\<lambda>u. stepKey u = stepKey r) (updates_of (trace w))"
  then have c: "cached (lookup (stepKey r) v)"
    using assms(4) by (simp add: cached_def)
  from inv have f: "frames_ok v" by simp
  from inv have "r \<in> set (db v)" by simp
  with f have "r \<in> set (db (fire e v))" using c by (rule kept_db_fire)
  moreover from inv have "distinct (map stepKey (db (fire e v)))"
    by (simp add: distinct_db_fire)
  moreover have "frames_ok (fire e v)" using f by (rule frames_ok_fire)
  ultimately show "frames_ok (fire e v) \<and>
         lookup (stepKey r) (fire e v) = Some r \<and>
         r \<in> set (db (fire e v)) \<and>
         distinct (map stepKey (db (fire e v))) \<and>
         invocations (stepKey r) (trace (fire e v)) = invocations (stepKey r) (trace w) \<and>
         filter (\<lambda>u. stepKey u = stepKey r) (updates_of (trace (fire e v))) =
           filter (\<lambda>u. stepKey u = stepKey r) (updates_of (trace w))"
    using inv invocations_fire [OF f c] updates_key_fire [OF f c] by simp
qed

lemma replay_keeps_completed:
  assumes "r \<in> set (db w)" and "distinct (map stepKey (db w))"
    and "workflowId r = wid" and "status r = COMPLETED"
  shows "r \<in> set (db (replay wid passes w)) \<and>
         distinct (map stepKey (db (replay wid passes w))) \<and>
         invocations (stepKey r) (trace (replay wid passes w)) =
           invocations (stepKey r) (trace w) \<and>
         filter (\<lambda>u. stepKey u = stepKey r) (updates_of (trace (replay wid passes w))) =
           filter (\<lambda>u. stepKey u = stepKey r) (updates_of (trace w))"
  using assms(1,2)
proof (induction passes arbitrary: w)
  case Nil
  then show ?case by simp
next
  case (Cons es passes)
  from pass_keeps_completed [OF Cons.prems assms(3,4), of es]
  have p: "r \<in> set (db (exec es (DurableContext wid w)))"
    "distinct (map stepKey (db (exec es (DurableContext wid w))))"
    "invocations (stepKey r) (trace (exec es (DurableContext wid w))) =
       invocations (stepKey r) (trace w)"
    "filter (\<lambda>u. stepKey u = stepKey r) (updates_of (trace (exec es (DurableContext wid w)))) =
       filter (\<lambda>u. stepKey u = stepKey r) (updates_of (trace w))"
    by simp_all
  from Cons.IH [OF p(1,2)] p(3,4) show ?case by simp
qed

subsection \<open>Parallel calls\<close>


lemma branch_result_exec [simp]: "branch_result (exec es w) b n = branch_result w b n"
  by (simp add: branch_result_def)






lemma snd_call_all_Cons:
  "snd (call_all ((i, fn) # bs) w) = snd (call_all bs (step_call i fn w))"
  by (simp add: case_prod_beta Let_def)

lemma call_all_exec: "snd (call_all bs w) = exec (map (\<lambda>(i, fn). Call i fn) bs) w"
proof (induction bs arbitrary: w)
  case Nil
  then show ?case by (simp add: exec_def)
next
  case (Cons b bs)
  obtain i fn where b: "b = (i, fn)" by (cases b)
  with Cons.IH [of "step_call i fn w"] show ?case
    by (simp add: snd_call_all_Cons exec_def del: call_all.simps)
qed








subsection \<open>Workflow code\<close>






lemma await_exec: "\<exists>evs. snd (snd (await p es w)) = exec evs w"
proof (induction es arbitrary: w)
  case Nil
  have "snd (snd (await p [] w)) = exec [] w" by (simp add: exec_def)
  then show ?case ..
next
  case (Cons e es)
  show ?case
  proof (cases "p w")
    case None
    from Cons.IH [of "fire e w"] obtain evs
      where "snd (snd (await p es (fire e w))) = exec evs (fire e w)" ..
    with None have "snd (snd (await p (e # es) w)) = exec (e # evs) w"
      by (simp add: exec_def)
    then show ?thesis ..
  next
    case (Some r)
    then have "snd (snd (await p (e # es) w)) = exec [] w" by (simp add: exec_def)
    then show ?thesis ..
  qed
qed

lemma caught_exec: "\<exists>evs. snd (snd (caught m es w)) = exec evs w"
proof (cases "m = WORKFLOW_INTERRUPTED")
  case True
  then have "snd (snd (caught m es w)) = exec [] w" by (simp add: caught_def exec_def)
  then show ?thesis ..
next
  case False
  then have "snd (snd (caught m es w)) = exec [Log (''Workflow failed: '' @ m) Error] w"
    by (simp add: caught_def exec_def)
  then show ?thesis ..
qed

lemma run_pass_exec: "\<exists>evs. snd (snd (run_pass prog es w)) = exec evs w"
proof (induction prog es w rule: run_pass.induct)
  case (1 es w)
  have "snd (snd (run_pass [] es w)) = exec [Log ''Workflow completed successfully!'' Success] w"
    by (simp add: exec_def)
  then show ?case ..
next
  case (2 m t ss es w)
  then obtain evs where "snd (snd (run_pass ss es (addLog m t w))) = exec evs (addLog m t w)" ..
  then have "snd (snd (run_pass (Note m t # ss) es w)) = exec (Log m t # evs) w"
    by (simp add: exec_def)
  then show ?case ..
next
  case (3 i fn ss es w)
  let ?w1 = "step_call i fn w"
  obtain r es' w' where a: "await (settled (sequenceCounter ?w1)) es ?w1 = (r, es', w')"
    by (cases "await (settled (sequenceCounter ?w1)) es ?w1") auto
  from await_exec [of "settled (sequenceCounter ?w1)" es ?w1] a
  obtain evs1 where "w' = exec evs1 ?w1" by auto
  then have w': "w' = exec (Call i fn # evs1) w" by (simp add: exec_def)
  show ?case
  proof (cases r)
    case None
    with a w' have "snd (snd (run_pass (AwaitStep i fn # ss) es w)) = exec (Call i fn # evs1) w"
      by simp
    then show ?thesis ..
  next
    case (Some p)
    show ?thesis
    proof (cases p)
      case (Fulfilled v)
      from "3.IH" [OF refl a [symmetric] Some Fulfilled refl] obtain evs2
        where "snd (snd (run_pass ss es' w')) = exec evs2 w'" ..
      with a Some Fulfilled w'
      have "snd (snd (run_pass (AwaitStep i fn # ss) es w)) = exec ((Call i fn # evs1) @ evs2) w"
        by (simp add: exec_def)
      then show ?thesis ..
    next
      case (Rejected m)
      from caught_exec [of m es' w'] obtain evs2
        where "snd (snd (caught m es' w')) = exec evs2 w'" ..
      with a Some Rejected w'
      have "snd (snd (run_pass (AwaitStep i fn # ss) es w)) = exec ((Call i fn # evs1) @ evs2) w"
        by (simp add: exec_def)
      then show ?thesis ..
    next
      case (AwaitingDelay fr)
      with a Some w'
      have "snd (snd (run_pass (AwaitStep i fn # ss) es w)) = exec (Call i fn # evs1) w"
        by simp
      then show ?thesis ..
    next
      case (AwaitingWork fr)
      with a Some w'
      have "snd (snd (run_pass (AwaitStep i fn # ss) es w)) = exec (Call i fn # evs1) w"
        by simp
      then show ?thesis ..
    qed
  qed
next
  case (4 bs ss es w)
  obtain ns w1 where c: "call_all bs w = (ns, w1)" by (cases "call_all bs w") auto
  then have w1: "w1 = exec (map (\<lambda>(i, fn). Call i fn) bs) w"
    using call_all_exec [of bs w] by simp
  obtain r es' w' where a: "await (parallel ns) es w1 = (r, es', w')"
    by (cases "await (parallel ns) es w1") auto
  from await_exec [of "parallel ns" es w1] a
  obtain evs1 where "w' = exec evs1 w1" by auto
  with w1 have w': "w' = exec (map (\<lambda>(i, fn). Call i fn) bs @ evs1) w"
    by (simp add: exec_def)
  show ?case
  proof (cases r)
    case None
    with a c w' have "snd (snd (run_pass (AwaitParallel bs # ss) es w)) =
        exec (map (\<lambda>(i, fn). Call i fn) bs @ evs1) w"
      by simp
    then show ?thesis ..
  next
    case (Some p)
    show ?thesis
    proof (cases p)
      case (Fulfilled v)
      from "4.IH" [OF c [symmetric] refl a [symmetric] Some Fulfilled refl] obtain evs2
        where "snd (snd (run_pass ss es' w')) = exec evs2 w'" ..
      with a c Some Fulfilled w'
      have "snd (snd (run_pass (AwaitParallel bs # ss) es w)) =
          exec ((map (\<lambda>(i, fn). Call i fn) bs @ evs1) @ evs2) w"
        by (simp add: exec_def)
      then show ?thesis ..
    next
      case (Rejected m)
      from caught_exec [of m es' w'] obtain evs2
        where "snd (snd (caught m es' w')) = exec evs2 w'" ..
      with a c Some Rejected w'
      have "snd (snd (run_pass (AwaitParallel bs # ss) es w)) =
          exec ((map (\<lambda>(i, fn). Call i fn) bs @ evs1) @ evs2) w"
        by (simp add: exec_def)
      then show ?thesis ..
    next
      case (AwaitingDelay fr)
      with a c Some w'
      have "snd (snd (run_pass (AwaitParallel bs # ss) es w)) =
          exec (map (\<lambda>(i, fn). Call i fn) bs @ evs1) w"
        by simp
      then show ?thesis ..
    next
      case (AwaitingWork fr)
      with a c Some w'
      have "snd (snd (run_pass (AwaitParallel bs # ss) es w)) =
          exec (map (\<lambda>(i, fn). Call i fn) bs @ evs1) w"
        by simp
      then show ?thesis ..
    qed
  qed
qed

subsection \<open>Evaluation of the examples\<close>

lemmas run_defs = exec_def step_call_def step_timer_def step_settle_def lookup_def cached_def
  isInterrupted_def settle_def suspend_def addLog_def onStepUpdate_def handleStepUpdate_def
  initial_def step_key_def string_of_nat.simps digit_char_def WORKFLOW_INTERRUPTED_def Let_def
  DurableContext_def running_record_def completed_record_def failed_record_def


lemma db_first_pass: "db first_pass = [done_A]"
  by (simp add: first_pass_def done_A_def run_defs)

lemma trace_first_pass: "invoked_of (trace first_pass) = [(''A'', 1)]"
  by (simp add: first_pass_def run_defs)

section \<open>The claims\<close>

text \<open>
  C1. A call of \<open>step\<close> at any point of a pass over a store that holds, for the computed
  step key and the workflow id of the context, a COMPLETED record returns the stored result
  of that record: its promise is fulfilled with it, nothing is written, the signal is not
  read and the work is not called. Consequently the work of such a step is not called in any
  number of replay passes, each started as after a restart: the number of its invocations
  stays what it was (at most one over the whole history). The store holds one record per
  step key, as every store that the engine has built from the empty one does
  (\<open>store_one_record_per_key\<close>).
\<close>

theorem completed_step_is_memoized:
  assumes "r \<in> set (db w)" and "distinct (map stepKey (db w))"
    and "workflowId r = wid" and "status r = COMPLETED"
    and "v = exec es (DurableContext wid w)" and "n = Suc (sequenceCounter v)"
    and "stepKey r = step_key i n"
  shows "promises (step_call i fn v) n = Some (Fulfilled (result r)) \<and>
         db (step_call i fn v) = db v \<and>
         trace (step_call i fn v) = trace v @ [Called i n] \<and>
         invocations (stepKey r) (trace (replay wid passes w)) = invocations (stepKey r) (trace w)"
proof -
  from pass_keeps_completed [OF assms(1-4), of es] assms(5,6,7)
  have "lookup (step_key i (Suc (sequenceCounter v))) v = Some r" by simp
  from step_call_cached [OF this assms(4)] assms(6)
  have "promises (step_call i fn v) n = Some (Fulfilled (result r))"
    and "db (step_call i fn v) = db v"
    and "trace (step_call i fn v) = trace v @ [Called i n]"
    by simp_all
  moreover from replay_keeps_completed [OF assms(1-4)]
  have "invocations (stepKey r) (trace (replay wid passes w)) = invocations (stepKey r) (trace w)"
    by simp
  ultimately show ?thesis by simp
qed

theorem completed_step_is_memoized_witness:
  "promises (step_call ''A'' (Returns (JStr ''again'')) (DurableContext ''wf-1'' first_pass)) 1
     = Some (Fulfilled (JStr ''done'')) \<and>
   invocations ''A_seq_1'' (trace first_pass) = 1 \<and>
   invocations ''A_seq_1'' (trace (replay ''wf-1''
      [[Call ''A'' (Returns (JStr ''again'')), Timer 1, Settle 1],
       [Call ''A'' (Returns (JStr ''again'')), Timer 1, Settle 1]] first_pass)) = 1"
proof -
  have h1: "done_A \<in> set (db first_pass)" by (simp add: db_first_pass)
  have h2: "distinct (map stepKey (db first_pass))" by (simp add: db_first_pass)
  have h3: "workflowId done_A = ''wf-1''" by (simp add: done_A_def)
  have h4: "status done_A = COMPLETED" by (simp add: done_A_def)
  have h5: "DurableContext ''wf-1'' first_pass = exec [] (DurableContext ''wf-1'' first_pass)"
    by (simp add: exec_def)
  have h6: "1 = Suc (sequenceCounter (DurableContext ''wf-1'' first_pass))"
    by (simp add: DurableContext_def)
  have h7: "stepKey done_A = step_key ''A'' 1"
    by (simp add: done_A_def step_key_def string_of_nat.simps digit_char_def)
  have k: "stepKey done_A = ''A_seq_1''" "result done_A = JStr ''done''"
    by (simp_all add: done_A_def)
  have c: "invocations ''A_seq_1'' (trace first_pass) = 1"
    by (simp add: invocations_def trace_first_pass step_key_def string_of_nat.simps digit_char_def)
  from completed_step_is_memoized [where fn = "Returns (JStr ''again'')" and passes =
      "[[Call ''A'' (Returns (JStr ''again'')), Timer 1, Settle 1],
        [Call ''A'' (Returns (JStr ''again'')), Timer 1, Settle 1]]", OF h1 h2 h3 h4 h5 h6 h7] k c
  show ?thesis by (simp del: replay.simps)
qed

text \<open>
  C2. In every execution pass (any calls of \<open>step\<close> and any events, from a new context
  over any store; a pass of workflow code is one, by \<open>run_pass_exec\<close>) the i-th call of
  \<open>step\<close> takes the sequence number i, starting at 1: the numbers are consecutive and
  never used twice, and the step keys of the calls are pairwise different, whatever the
  labels (so also for one label called n times).
\<close>

theorem sequence_numbers_consecutive:
  "map snd (calls_of (trace (exec es (initial wid store)))) =
     [1..<Suc (length (calls_of (trace (exec es (initial wid store)))))] \<and>
   distinct (map snd (calls_of (trace (exec es (initial wid store))))) \<and>
   distinct (map (\<lambda>(i, n). step_key i n) (calls_of (trace (exec es (initial wid store)))))"
proof -
  let ?cs = "calls_of (trace (exec es (initial wid store)))"
  have num: "map snd ?cs = [1..<Suc (sequenceCounter (exec es (initial wid store)))]"
    by (rule exec_induct) (simp_all add: initial_def numbered_fire)
  then have "length ?cs = sequenceCounter (exec es (initial wid store))"
    by (metis length_map length_upt diff_Suc_1)
  with num have a: "map snd ?cs = [1..<Suc (length ?cs)]" by simp
  then have b: "distinct (map snd ?cs)" by (metis distinct_upt)
  then have "distinct ?cs" by (simp add: distinct_map)
  then have "distinct (map (\<lambda>(i, n). step_key i n) ?cs)"
    by (simp add: distinct_map inj_on_step_key)
  with a b show ?thesis by simp
qed

theorem sequence_numbers_consecutive_witness:
  "calls_of (trace (exec [Call ''Send Email'' (Returns JNull), Timer 1, Settle 1,
        Call ''Send Email'' (Returns JNull), Timer 2, Settle 2,
        Call ''Send Email'' (Returns JNull)] (initial ''wf-1'' [])))
     = [(''Send Email'', 1), (''Send Email'', 2), (''Send Email'', 3)] \<and>
   distinct (map (\<lambda>(i, n). step_key i n)
     (calls_of (trace (exec [Call ''Send Email'' (Returns JNull), Timer 1, Settle 1,
        Call ''Send Email'' (Returns JNull), Timer 2, Settle 2,
        Call ''Send Email'' (Returns JNull)] (initial ''wf-1'' [])))))"
proof -
  have "calls_of (trace (exec [Call ''Send Email'' (Returns JNull), Timer 1, Settle 1,
        Call ''Send Email'' (Returns JNull), Timer 2, Settle 2,
        Call ''Send Email'' (Returns JNull)] (initial ''wf-1'' [])))
     = [(''Send Email'', 1), (''Send Email'', 2), (''Send Email'', 3)]"
    by (simp add: run_defs)
  with sequence_numbers_consecutive [of "[Call ''Send Email'' (Returns JNull), Timer 1, Settle 1,
        Call ''Send Email'' (Returns JNull), Timer 2, Settle 2,
        Call ''Send Email'' (Returns JNull)]" "''wf-1''" "[]"]
  show ?thesis by simp
qed





text \<open>
  C5 (as stated, refuted). The signal is asserted while the work runs. There is no check
  between the work and the commit: both reads of the signal come before the work is called,
  and the COMPLETED record is committed while the signal is asserted.
\<close>

theorem commit_while_signal_asserted:
  "isCrashedRef (exec [Call ''A'' (Returns (JStr ''a'')), Timer 1, Signal True, Settle 1]
     (initial ''wf-1'' [])) \<and>
   map status (db (exec [Call ''A'' (Returns (JStr ''a'')), Timer 1, Signal True, Settle 1]
     (initial ''wf-1'' []))) = [COMPLETED] \<and>
   trace (exec [Call ''A'' (Returns (JStr ''a'')), Timer 1, Signal True, Settle 1]
     (initial ''wf-1'' [])) =
     [Called ''A'' 1, Polled 1 False, Updated (running_record (initial ''wf-1'' []) ''A'' 1),
      Polled 1 False, Invoked ''A'' 1,
      Updated (completed_record (running_record (initial ''wf-1'' []) ''A'' 1) (JStr ''a'') 0)]"
  by (simp add: run_defs)

text \<open>
  C5 (amended). In a call of \<open>step\<close> that is not memoized and not interrupted, the
  signal is read at exactly two points: before the RUNNING record is written, and after the
  delay, immediately before the work is called. Nothing reads it after the work has been
  called: whatever the signal is then, the outcome of the work is committed (COMPLETED, or
  FAILED for an error other than the interruption); in any state, the part of \<open>step\<close>
  that runs after the work does the same whether the signal is set or not.
\<close>

theorem polls_only_before_work:
  assumes "\<not> cached (lookup (step_key i n) w)" and "\<not> isCrashedRef w"
    and "n = Suc (sequenceCounter w)"
  shows "trace (exec [Call i fn, Timer n, Signal b, Elapse d, Settle n] w) =
           trace w @
           [Called i n, Polled n False, Updated (running_record w i n),
            Polled n False, Invoked i n] @
           (case fn of
              Returns v \<Rightarrow> [Updated (completed_record (running_record w i n) v (now w + d))]
            | Throws m \<Rightarrow>
                if m = WORKFLOW_INTERRUPTED then []
                else [Updated (failed_record (running_record w i n) m (now w + d))]) \<and>
         db (step_settle k (fire (Signal b) v)) = db (step_settle k v) \<and>
         trace (step_settle k (fire (Signal b) v)) = trace (step_settle k v) \<and>
         promises (step_settle k (fire (Signal b) v)) = promises (step_settle k v)"
  using assms
  by (simp add: step_settle_ignores_signal del: fire.simps)
    (simp add: exec_def step_defs lookup_def split: work.splits)

theorem polls_only_before_work_witness:
  "trace (exec [Call ''A'' (Throws ''boom''), Timer 1, Signal True, Elapse 1500, Settle 1]
     (initial ''wf-1'' [])) =
     [Called ''A'' 1, Polled 1 False, Updated (running_record (initial ''wf-1'' []) ''A'' 1),
      Polled 1 False, Invoked ''A'' 1,
      Updated (failed_record (running_record (initial ''wf-1'' []) ''A'' 1) ''boom'' 1500)]"
proof -
  have h1: "\<not> cached (lookup (step_key ''A'' 1) (initial ''wf-1'' []))"
    by (simp add: cached_def lookup_def initial_def)
  have h2: "\<not> isCrashedRef (initial ''wf-1'' [])"
    by (simp add: initial_def)
  have h3: "1 = Suc (sequenceCounter (initial ''wf-1'' []))"
    by (simp add: initial_def)
  have t: "now (initial ''wf-1'' []) = 0" "''boom'' \<noteq> WORKFLOW_INTERRUPTED"
    "trace (initial ''wf-1'' []) = []"
    by (simp_all add: initial_def WORKFLOW_INTERRUPTED_def)
  from polls_only_before_work [OF h1 h2 h3, of "Throws ''boom''" True 1500] t
  show ?thesis by simp
qed

text \<open>
  C6 (as stated, refuted). The signal becomes asserted after the work has been called and
  before the commit. The part of \<open>step\<close> that runs when \<open>await fn()\<close> comes back (lines
  431-441) has no check: whether the signal was set while the work ran or after it had
  finished, the record is committed COMPLETED, not left RUNNING.
\<close>

theorem signal_after_work_still_commits:
  "isCrashedRef (exec [Call ''B'' (Returns (JStr ''b'')), Timer 1, Signal True, Settle 1]
     (initial ''wf-1'' [])) \<and>
   map status (db (exec [Call ''B'' (Returns (JStr ''b'')), Timer 1, Signal True, Settle 1]
     (initial ''wf-1'' []))) = [COMPLETED] \<and>
   map stepKey (db (exec [Call ''B'' (Returns (JStr ''b'')), Timer 1, Signal True, Settle 1]
     (initial ''wf-1'' []))) = [''B_seq_1''] \<and>
   promises (exec [Call ''B'' (Returns (JStr ''b'')), Timer 1, Signal True, Settle 1]
     (initial ''wf-1'' [])) 1 = Some (Fulfilled (JStr ''b''))"
  by (simp add: run_defs)

text \<open>
  C6 (amended). For a step whose record is absent or RUNNING: if the signal becomes asserted
  after the RUNNING record is written and before the work is called, the record is left
  RUNNING, the work is not called and the promise is rejected with the interruption; if it
  becomes asserted after the work has been called, the COMPLETED record is still committed;
  and a pass that finds the record RUNNING, with the signal not asserted, calls the work
  again for that sequence number (at least once).
\<close>

theorem zombie_window:
  assumes "lookup (step_key i n) w = None \<or>
           map_option status (lookup (step_key i n) w) = Some RUNNING"
    and "\<not> isCrashedRef w" and "n = Suc (sequenceCounter w)"
  shows "find (\<lambda>x. stepKey x = step_key i n) (db (exec [Call i fn, Signal True, Timer n] w))
           = Some (running_record w i n) \<and>
         status (running_record w i n) = RUNNING \<and>
         promises (exec [Call i fn, Signal True, Timer n] w) n
           = Some (Rejected WORKFLOW_INTERRUPTED) \<and>
         invoked_of (trace (exec [Call i fn, Signal True, Timer n] w)) = invoked_of (trace w) \<and>
         find (\<lambda>x. stepKey x = step_key i n)
           (db (exec [Call i (Returns v), Timer n, Signal True, Settle n] w))
           = Some (completed_record (running_record w i n) v (now w)) \<and>
         invoked_of (trace (exec [Call i fn, Timer n] w)) = invoked_of (trace w) @ [(i, n)]"
proof -
  from assms(1) have nc: "\<not> cached (lookup (step_key i (Suc (sequenceCounter w))) w)"
    using assms(3) by (auto simp: cached_def split: option.splits)
  have k: "stepKey (running_record w i n) = step_key i n"
    "stepKey (completed_record (running_record w i n) v (now w)) = step_key i n"
    by (simp_all add: running_record_def completed_record_def)
  have d1: "db (exec [Call i fn, Signal True, Timer n] w)
      = handleStepUpdate (running_record w i n) (db w)"
    using nc assms(2,3) by (simp add: exec_def step_defs lookup_def)
  have d2: "db (exec [Call i (Returns v), Timer n, Signal True, Settle n] w)
      = handleStepUpdate (completed_record (running_record w i n) v (now w))
          (handleStepUpdate (running_record w i n) (db w))"
    using nc assms(2,3) by (simp add: exec_def step_defs lookup_def)
  have p: "promises (exec [Call i fn, Signal True, Timer n] w) n
      = Some (Rejected WORKFLOW_INTERRUPTED)"
    using nc assms(2,3) by (simp add: exec_def step_defs lookup_def)
  have t1: "invoked_of (trace (exec [Call i fn, Signal True, Timer n] w)) = invoked_of (trace w)"
    using nc assms(2,3) by (simp add: exec_def step_defs lookup_def invoked_of_append)
  have t2: "invoked_of (trace (exec [Call i fn, Timer n] w)) = invoked_of (trace w) @ [(i, n)]"
    using nc assms(2,3) by (simp add: exec_def step_defs lookup_def invoked_of_append)
  from d1 d2 p t1 t2 k show ?thesis
    by (simp add: find_key_handleStepUpdate) (simp add: running_record_def)
qed

theorem zombie_window_witness:
  "map_option status (lookup (step_key ''A'' 1) (initial ''wf-1'' [stuck_A])) = Some RUNNING \<and>
   invoked_of (trace (exec [Call ''A'' (Returns JNull), Timer 1] (initial ''wf-1'' [stuck_A])))
     = [(''A'', 1)] \<and>
   promises (exec [Call ''A'' (Returns JNull), Signal True, Timer 1] (initial ''wf-1'' [stuck_A])) 1
     = Some (Rejected WORKFLOW_INTERRUPTED) \<and>
   map status (db (exec [Call ''A'' (Returns JNull), Signal True, Timer 1]
     (initial ''wf-1'' [stuck_A]))) = [RUNNING]"
proof -
  have l: "map_option status (lookup (step_key ''A'' 1) (initial ''wf-1'' [stuck_A])) = Some RUNNING"
    by (simp add: stuck_A_def run_defs)
  then have h1: "lookup (step_key ''A'' 1) (initial ''wf-1'' [stuck_A]) = None \<or>
      map_option status (lookup (step_key ''A'' 1) (initial ''wf-1'' [stuck_A])) = Some RUNNING"
    by simp
  have h2: "\<not> isCrashedRef (initial ''wf-1'' [stuck_A])" by (simp add: initial_def)
  have h3: "1 = Suc (sequenceCounter (initial ''wf-1'' [stuck_A]))" by (simp add: initial_def)
  have t: "trace (initial ''wf-1'' [stuck_A]) = []" by (simp add: initial_def)
  have d: "map status (db (exec [Call ''A'' (Returns JNull), Signal True, Timer 1]
     (initial ''wf-1'' [stuck_A]))) = [RUNNING]"
    by (simp add: stuck_A_def run_defs)
  from zombie_window [OF h1 h2 h3, of "Returns JNull" JNull] l t d
  show ?thesis by simp
qed









text \<open>
  C10. The step executor never writes a record with status PENDING: every record it
  hands to \<open>onStepUpdate\<close>, in any number of passes over any store, has status RUNNING,
  COMPLETED or FAILED; so a store without PENDING rows never gets one, and a step that has
  not begun is represented by the absence of a record.
\<close>

theorem never_writes_pending:
  assumes "list_all written store"
  shows "list_all written (updates_of (trace (replay wid passes (initial wid store)))) \<and>
         list_all written (db (replay wid passes (initial wid store)))"
proof
  show "list_all written (updates_of (trace (replay wid passes (initial wid store))))"
    by (rule replay_induct) (simp_all add: initial_def written_fire)
  show "list_all written (db (replay wid passes (initial wid store)))"
    by (rule replay_induct) (simp_all add: initial_def written_db_fire assms)
qed

theorem never_writes_pending_witness:
  "list_all written [] \<and>
   list_all written (updates_of (trace (replay ''wf-1''
      [[Call ''A'' (Throws ''boom''), Timer 1, Settle 1], [Call ''A'' (Returns JNull), Timer 1, Settle 1]]
      (initial ''wf-1'' [])))) \<and>
   map status (updates_of (trace (replay ''wf-1''
      [[Call ''A'' (Throws ''boom''), Timer 1, Settle 1], [Call ''A'' (Returns JNull), Timer 1, Settle 1]]
      (initial ''wf-1'' [])))) = [RUNNING, FAILED, RUNNING, COMPLETED] \<and>
   list_all written (db (replay ''wf-1''
      [[Call ''A'' (Throws ''boom''), Timer 1, Settle 1], [Call ''A'' (Returns JNull), Timer 1, Settle 1]]
      (initial ''wf-1'' [])))"
proof -
  have h: "list_all written []" by simp
  have "map status (updates_of (trace (replay ''wf-1''
      [[Call ''A'' (Throws ''boom''), Timer 1, Settle 1], [Call ''A'' (Returns JNull), Timer 1, Settle 1]]
      (initial ''wf-1'' [])))) = [RUNNING, FAILED, RUNNING, COMPLETED]"
    by (simp add: run_defs)
  with h never_writes_pending [OF h, of "''wf-1''"
      "[[Call ''A'' (Throws ''boom''), Timer 1, Settle 1], [Call ''A'' (Returns JNull), Timer 1, Settle 1]]"]
  show ?thesis by simp
qed

end
